theory Spec2Isabelle
  imports Main
begin

section \<open>The fragment of Go's reflect package the container uses\<close>

text \<open>
  The container is keyed by \<^verbatim>\<open>reflect.Type\<close>. A type is a named non-composite type, a
  named struct with its fields in declaration order (name, exported flag, type), a named
  interface, a pointer or a function type with its parameter and result types. Equality
  of types is equality of these descriptions.
\<close>

datatype rtype =
    TBasic string
  | TStruct string "(string \<times> bool \<times> rtype) list"
  | TInterface string
  | TPtr rtype
  | TFunc "rtype list" "rtype list"

text \<open>
  A \<^verbatim>\<open>reflect.Value\<close>. \<open>VZero\<close> is the zero Value \<^verbatim>\<open>reflect.Value{}\<close>, which is also what
  \<^verbatim>\<open>reflect.ValueOf(nil)\<close> returns. A pointer carries its element type and the address of
  the object it points to, a function its parameter and result types and the identity of
  the closure, a non-nil interface value its interface type and the value it holds.
\<close>

datatype val =
    VZero
  | VBasic string string
  | VStruct string "(string \<times> bool \<times> rtype) list" "val list"
  | VNilPtr rtype
  | VPtr rtype nat
  | VNilFunc "rtype list" "rtype list"
  | VFunc "rtype list" "rtype list" nat
  | VNilIface string
  | VIface string val

datatype panic =
    PanicTypeOfZero
  | PanicNotFunc
  | PanicNilFunc
  | PanicInCall
  | PanicIsNil
  | PanicTypeAssert
  | PanicIndex
  | PanicElem
  | PanicNumField
  | PanicSet
  | PanicInterface

text \<open>
  An \<^verbatim>\<open>error\<close> is either built by \<^verbatim>\<open>errors.New\<close> / \<^verbatim>\<open>fmt.Errorf\<close> from a message, or it
  is a value that a constructor returned as its second output.
\<close>

datatype err = ErrNew string | ErrVal val

datatype 'a result = Ok 'a | Err err | Panic panic

fun type_of :: "val \<Rightarrow> rtype option" where
  "type_of VZero = None"
| "type_of (VBasic n x) = Some (TBasic n)"
| "type_of (VStruct n fs xs) = Some (TStruct n fs)"
| "type_of (VNilPtr t) = Some (TPtr t)"
| "type_of (VPtr t a) = Some (TPtr t)"
| "type_of (VNilFunc ins outs) = Some (TFunc ins outs)"
| "type_of (VFunc ins outs f) = Some (TFunc ins outs)"
| "type_of (VNilIface n) = Some (TInterface n)"
| "type_of (VIface n d) = Some (TInterface n)"

text \<open>\<^verbatim>\<open>reflect.ValueOf(x)\<close> for \<^verbatim>\<open>x any\<close>: the Value of the dynamic value of \<open>x\<close>.\<close>

fun ValueOf :: "val \<Rightarrow> val" where
  "ValueOf (VIface n d) = ValueOf d"
| "ValueOf (VNilIface n) = VZero"
| "ValueOf v = v"

text \<open>\<^verbatim>\<open>v.Interface()\<close>: the value as an \<^verbatim>\<open>any\<close>; it panics on the zero Value.\<close>

fun Interface :: "val \<Rightarrow> panic + val" where
  "Interface VZero = Inl PanicInterface"
| "Interface (VIface n d) = Inr d"
| "Interface (VNilIface n) = Inr VZero"
| "Interface v = Inr v"

text \<open>
  \<^verbatim>\<open>v.IsNil()\<close> is defined for the kinds that have a nil (here function, interface,
  pointer) and panics for every other kind.
\<close>

fun IsNil :: "val \<Rightarrow> panic + bool" where
  "IsNil (VNilPtr t) = Inr True"
| "IsNil (VNilFunc ins outs) = Inr True"
| "IsNil (VNilIface n) = Inr True"
| "IsNil (VPtr t a) = Inr False"
| "IsNil (VFunc ins outs f) = Inr False"
| "IsNil (VIface n d) = Inr False"
| "IsNil v = Inl PanicIsNil"

text \<open>\<^verbatim>\<open>t.String()\<close>, which \<^verbatim>\<open>%v\<close> prints for a \<^verbatim>\<open>reflect.Type\<close>.\<close>

fun commaSep :: "string list \<Rightarrow> string" where
  "commaSep [] = []"
| "commaSep [x] = x"
| "commaSep (x # y # ys) = x @ '', '' @ commaSep (y # ys)"

fun typeString :: "rtype \<Rightarrow> string" where
  "typeString (TBasic n) = n"
| "typeString (TStruct n fs) = n"
| "typeString (TInterface n) = n"
| "typeString (TPtr t) = ''*'' @ typeString t"
| "typeString (TFunc ins outs) =
     ''func('' @ commaSep (map typeString ins) @ '')'' @
     (case outs of
        [] \<Rightarrow> []
      | [t] \<Rightarrow> '' '' @ typeString t
      | _ \<Rightarrow> '' ('' @ commaSep (map typeString outs) @ '')'')"

section \<open>The container\<close>

datatype Scope = ScopeTransient | ScopeSingleton

record Spec =
  Type :: rtype
  Value :: val
  Scope :: Scope

record Container =
  configurations :: "string \<rightharpoonup> rtype"
  providers :: "rtype \<rightharpoonup> Spec"
  instances :: "rtype \<rightharpoonup> val"

text \<open>
  The container lives in a process: \<open>heap\<close> holds the objects that pointers point to,
  \<open>world\<close> is whatever state the registered closures read and write, and \<open>calls\<close> is the
  trace of the functions run through \<^verbatim>\<open>reflect.Value.Call\<close>, each with its arguments, in
  the order they ran. The trace is what the counter of the repository's test observes.
\<close>

record 'w state = Container +
  heap :: "nat \<Rightarrow> val"
  world :: 'w
  calls :: "(val \<times> val list) list"

text \<open>
  What the closures do is a parameter: \<open>body f args w\<close> runs closure \<open>f\<close> on \<open>args\<close> in
  world \<open>w\<close> and returns its outputs, or \<open>None\<close> when it panics, with the new world.
  The closures act on \<open>world\<close> only: they neither register providers nor write the
  instance cache behind the container's back. \<open>implementsError t\<close> says whether the
  method set of \<open>t\<close> has \<^verbatim>\<open>Error() string\<close>.
\<close>

record 'w env =
  body :: "nat \<Rightarrow> val list \<Rightarrow> 'w \<Rightarrow> val list option \<times> 'w"
  implementsError :: "rtype \<Rightarrow> bool"

definition New :: "(nat \<Rightarrow> val) \<Rightarrow> 'w \<Rightarrow> 'w state" where
  "New h w = \<lparr> configurations = Map.empty, providers = Map.empty, instances = Map.empty,
               heap = h, world = w, calls = [] \<rparr>"

text \<open>\<^verbatim>\<open>spec\<close> (lines 238-251): the produced type and the Value of a constructor.\<close>

definition spec :: "val \<Rightarrow> (rtype \<times> val) result" where
  "spec constructor =
     (let v = ValueOf constructor in
      case type_of v of
        None \<Rightarrow> Panic PanicTypeOfZero
      | Some t \<Rightarrow>
          (case t of
             TFunc ins outs \<Rightarrow>
               if length outs = 0 \<or> length outs > 2
               then Err (ErrNew ''constructor must return T or (T, error)'')
               else Ok (hd outs, v)
           | _ \<Rightarrow> Err (ErrNew ''constructor must be a function'')))"

definition AddWithScope :: "Scope \<Rightarrow> val \<Rightarrow> 'w state \<Rightarrow> unit result \<times> 'w state" where
  "AddWithScope scope constructor c =
     (case spec constructor of
        Ok (t, v) \<Rightarrow>
          (Ok (), c\<lparr>providers := (providers c)(t \<mapsto> \<lparr>Type = t, Value = v, Scope = scope\<rparr>)\<rparr>)
      | Err e \<Rightarrow> (Err e, c)
      | Panic p \<Rightarrow> (Panic p, c))"

definition Add :: "val \<Rightarrow> 'w state \<Rightarrow> unit result \<times> 'w state" where
  "Add constructor c =
     (case AddWithScope ScopeTransient constructor c of
        (Ok u, c') \<Rightarrow> (Ok (), c')
      | (Err e, c') \<Rightarrow> (Err e, c')
      | (Panic p, c') \<Rightarrow> (Panic p, c'))"

definition AddSingleton :: "val \<Rightarrow> 'w state \<Rightarrow> unit result \<times> 'w state" where
  "AddSingleton constructor c =
     (case AddWithScope ScopeSingleton constructor c of
        (Ok u, c') \<Rightarrow> (Ok (), c')
      | (Err e, c') \<Rightarrow> (Err e, c')
      | (Panic p, c') \<Rightarrow> (Panic p, c'))"

text \<open>
  \<^verbatim>\<open>v.Call(args)\<close>: runs the closure, records the call, and returns the outputs. It panics
  on a nil function, on a Value that is no function, and when the closure panics.
\<close>

definition Call :: "'w env \<Rightarrow> val \<Rightarrow> val list \<Rightarrow> 'w state \<Rightarrow> (panic + val list) \<times> 'w state" where
  "Call E v args st =
     (case v of
        VFunc ins outs f \<Rightarrow>
          (case body E f args (world st) of
             (None, w') \<Rightarrow> (Inl PanicInCall, st\<lparr>world := w', calls := calls st @ [(v, args)]\<rparr>)
           | (Some out, w') \<Rightarrow> (Inr out, st\<lparr>world := w', calls := calls st @ [(v, args)]\<rparr>))
      | VNilFunc ins outs \<Rightarrow> (Inl PanicNilFunc, st)
      | _ \<Rightarrow> (Inl PanicNotFunc, st))"

text \<open>
  \<^verbatim>\<open>provider.Value.Type()\<close> followed by \<^verbatim>\<open>NumIn()\<close> and \<^verbatim>\<open>In(i)\<close>: the parameter types of a
  function Value. \<^verbatim>\<open>Type()\<close> panics on the zero Value and \<^verbatim>\<open>NumIn()\<close> on a type that is no
  function type.
\<close>

definition params :: "val \<Rightarrow> panic + rtype list" where
  "params v =
     (case type_of v of
        None \<Rightarrow> Inl PanicTypeOfZero
      | Some t \<Rightarrow> (case t of TFunc ins outs \<Rightarrow> Inr ins | _ \<Rightarrow> Inl PanicNotFunc))"

text \<open>\<^verbatim>\<open>out[1].Interface().(error)\<close>: the type assertion panics unless the dynamic value
  implements \<^verbatim>\<open>error\<close>.\<close>

definition asError :: "'w env \<Rightarrow> val \<Rightarrow> panic + err" where
  "asError E v =
     (case Interface v of
        Inl p \<Rightarrow> Inl p
      | Inr d \<Rightarrow>
          (case type_of d of
             None \<Rightarrow> Inl PanicTypeAssert
           | Some t \<Rightarrow> if implementsError E t then Inr (ErrVal d) else Inl PanicTypeAssert))"

text \<open>
  Lines 283-295 of \<^verbatim>\<open>resolve\<close>: call the constructor, return its second output as the
  error when there are two outputs and the second is not nil, otherwise take the first
  output, cache it for a singleton and return it.
\<close>

definition construct :: "'w env \<Rightarrow> rtype \<Rightarrow> Spec \<Rightarrow> val list \<Rightarrow> 'w state \<Rightarrow> val result \<times> 'w state" where
  "construct E t provider args st =
     (case Call E (Value provider) args st of
        (Inl p, st') \<Rightarrow> (Panic p, st')
      | (Inr out, st') \<Rightarrow>
          (case (if length out = 2
                 then (case IsNil (out ! 1) of
                         Inl p \<Rightarrow> Some (Panic p)
                       | Inr True \<Rightarrow> None
                       | Inr False \<Rightarrow>
                           (case asError E (out ! 1) of
                              Inl p \<Rightarrow> Some (Panic p)
                            | Inr e \<Rightarrow> Some (Err e)))
                 else None) of
             Some r \<Rightarrow> (r, st')
           | None \<Rightarrow>
               (case out of
                  [] \<Rightarrow> (Panic PanicIndex, st')
                | result # rest \<Rightarrow>
                    (Ok result,
                     if Scope provider = ScopeSingleton
                     then st'\<lparr>instances := (instances st')(t \<mapsto> result)\<rparr>
                     else st'))))"

text \<open>
  \<^verbatim>\<open>resolve\<close> (lines 260-296) recurses through the providers' parameters and does not
  detect cycles, so the model takes the depth of recursion it may use: \<open>resolve E n t st\<close>
  is \<open>None\<close> when the call needs to nest deeper than \<open>n\<close>. \<open>resolve_args\<close> is the loop of
  lines 273-281, which is also the loop of \<^verbatim>\<open>Invoke\<close> (lines 310-317).
\<close>

fun resolve :: "'w env \<Rightarrow> nat \<Rightarrow> rtype \<Rightarrow> 'w state \<Rightarrow> (val result \<times> 'w state) option"
  and resolve_args :: "'w env \<Rightarrow> nat \<Rightarrow> rtype list \<Rightarrow> 'w state \<Rightarrow> (val list result \<times> 'w state) option"
where
  "resolve E 0 t st = None"
| "resolve E (Suc n) t st =
     (case instances st t of
        Some inst \<Rightarrow> Some (Ok inst, st)
      | None \<Rightarrow>
          (case providers st t of
             None \<Rightarrow> Some (Err (ErrNew (''no provider for type '' @ typeString t)), st)
           | Some provider \<Rightarrow>
               (case params (Value provider) of
                  Inl p \<Rightarrow> Some (Panic p, st)
                | Inr ts \<Rightarrow>
                    (case resolve_args E n ts st of
                       None \<Rightarrow> None
                     | Some (Err e, st') \<Rightarrow> Some (Err e, st')
                     | Some (Panic p, st') \<Rightarrow> Some (Panic p, st')
                     | Some (Ok args, st') \<Rightarrow> Some (construct E t provider args st')))))"
| "resolve_args E n [] st = Some (Ok [], st)"
| "resolve_args E n (t # ts) st =
     (case resolve E n t st of
        None \<Rightarrow> None
      | Some (Err e, st') \<Rightarrow> Some (Err e, st')
      | Some (Panic p, st') \<Rightarrow> Some (Panic p, st')
      | Some (Ok v, st') \<Rightarrow>
          (case resolve_args E n ts st' of
             None \<Rightarrow> None
           | Some (Err e, st'') \<Rightarrow> Some (Err e, st'')
           | Some (Panic p, st'') \<Rightarrow> Some (Panic p, st'')
           | Some (Ok vs, st'') \<Rightarrow> Some (Ok (v # vs), st'')))"

text \<open>\<^verbatim>\<open>Invoke\<close> (lines 301-322).\<close>

definition Invoke :: "'w env \<Rightarrow> nat \<Rightarrow> val \<Rightarrow> 'w state \<Rightarrow> (unit result \<times> 'w state) option" where
  "Invoke E n fn st =
     (let v = ValueOf fn in
      case type_of v of
        Some (TFunc ins outs) \<Rightarrow>
          (case resolve_args E n ins st of
             None \<Rightarrow> None
           | Some (Err e, st') \<Rightarrow> Some (Err e, st')
           | Some (Panic p, st') \<Rightarrow> Some (Panic p, st')
           | Some (Ok args, st') \<Rightarrow>
               (case Call E v args st' of
                  (Inl p, st'') \<Rightarrow> Some (Panic p, st'')
                | (Inr out, st'') \<Rightarrow> Some (Ok (), st'')))
      | _ \<Rightarrow> Some (Err (ErrNew ''invoke expects a function''), st))"

text \<open>A struct field as \<^verbatim>\<open>t.Field(i)\<close> describes it: its name, whether it is exported, its type.\<close>

fun field_type :: "string \<times> bool \<times> rtype \<Rightarrow> rtype" where
  "field_type (nm, exported, ty) = ty"

fun field_exported :: "string \<times> bool \<times> rtype \<Rightarrow> bool" where
  "field_exported (nm, exported, ty) = exported"

text \<open>
  \<^verbatim>\<open>Bind\<close> (lines 328-344). \<open>set_field a i x\<close> is \<^verbatim>\<open>v.Field(i).Set(x)\<close> on the struct at
  address \<open>a\<close>; \<open>Bind_fields\<close> is the loop over the fields from index \<open>i\<close> on, and \<^verbatim>\<open>Set\<close>
  panics on a field that is not exported.
\<close>

definition set_field :: "nat \<Rightarrow> nat \<Rightarrow> val \<Rightarrow> 'w state \<Rightarrow> 'w state" where
  "set_field a i x st =
     (case heap st a of
        VStruct n fs xs \<Rightarrow> st\<lparr>heap := (heap st)(a := VStruct n fs (xs[i := x]))\<rparr>
      | _ \<Rightarrow> st)"

fun Bind_fields :: "'w env \<Rightarrow> nat \<Rightarrow> nat \<Rightarrow> nat \<Rightarrow> (string \<times> bool \<times> rtype) list \<Rightarrow> 'w state
    \<Rightarrow> (unit result \<times> 'w state) option" where
  "Bind_fields E n a i [] st = Some (Ok (), st)"
| "Bind_fields E n a i (f # fs) st =
     (case resolve E n (field_type f) st of
        None \<Rightarrow> None
      | Some (Err e, st') \<Rightarrow> Some (Err e, st')
      | Some (Panic p, st') \<Rightarrow> Some (Panic p, st')
      | Some (Ok x, st') \<Rightarrow>
          if field_exported f then Bind_fields E n a (Suc i) fs (set_field a i x st')
          else Some (Panic PanicSet, st'))"

definition Bind :: "'w env \<Rightarrow> nat \<Rightarrow> val \<Rightarrow> 'w state \<Rightarrow> (unit result \<times> 'w state) option" where
  "Bind E n out st =
     (case ValueOf out of
        VPtr t a \<Rightarrow>
          (case heap st a of
             VStruct nm fs xs \<Rightarrow> Bind_fields E n a 0 fs st
           | VZero \<Rightarrow> Some (Panic PanicTypeOfZero, st)
           | _ \<Rightarrow> Some (Panic PanicNumField, st))
      | VNilPtr t \<Rightarrow> Some (Panic PanicTypeOfZero, st)
      | _ \<Rightarrow> Some (Panic PanicElem, st))"

text \<open>\<^verbatim>\<open>Configure\<close> (lines 348-361) and \<^verbatim>\<open>Get\<close> (lines 364-376).\<close>

definition Configure :: "string \<Rightarrow> val \<Rightarrow> 'w state \<Rightarrow> unit result \<times> 'w state" where
  "Configure key constructor c =
     (case spec constructor of
        Err e \<Rightarrow> (Err e, c)
      | Panic p \<Rightarrow> (Panic p, c)
      | Ok (t, v) \<Rightarrow>
          (case AddSingleton constructor c of
             (Err e, c') \<Rightarrow> (Err e, c')
           | (Panic p, c') \<Rightarrow> (Panic p, c')
           | (Ok u, c') \<Rightarrow> (Ok (), c'\<lparr>configurations := (configurations c')(key \<mapsto> t)\<rparr>)))"

definition Get :: "'w env \<Rightarrow> nat \<Rightarrow> string \<Rightarrow> 'w state \<Rightarrow> (val result \<times> 'w state) option" where
  "Get E n key st =
     (case configurations st key of
        None \<Rightarrow> Some (Ok VZero, st)
      | Some t \<Rightarrow>
          (case resolve E n t st of
             None \<Rightarrow> None
           | Some (Err e, st') \<Rightarrow> Some (Ok VZero, st')
           | Some (Panic p, st') \<Rightarrow> Some (Panic p, st')
           | Some (Ok v, st') \<Rightarrow>
               (case Interface v of
                  Inl p \<Rightarrow> Some (Panic p, st')
                | Inr x \<Rightarrow> Some (Ok x, st'))))"

section \<open>What is observed of a run\<close>

text \<open>\<open>ncalls f st\<close> is the number of times the function \<open>f\<close> has run so far.\<close>

definition ncalls :: "val \<Rightarrow> 'w state \<Rightarrow> nat" where
  "ncalls f st = length (filter (\<lambda>e. fst e = f) (calls st))"

text \<open>
  \<open>frame st st'\<close>: the registry, the configuration keys and the heap are the same in
  both states.
\<close>

definition frame :: "'w state \<Rightarrow> 'w state \<Rightarrow> bool" where
  "frame st st' \<longleftrightarrow>
     providers st' = providers st \<and> configurations st' = configurations st \<and> heap st' = heap st"

text \<open>
  \<open>keyed st\<close>: every provider is stored under the first result type of its constructor.
  \<^verbatim>\<open>AddWithScope\<close> is the only writer of \<open>providers\<close> and it stores a constructor under
  \<^verbatim>\<open>t.Out(0)\<close>, so every container built from \<^verbatim>\<open>New\<close> is keyed.
\<close>

definition keyed :: "'w state \<Rightarrow> bool" where
  "keyed st \<longleftrightarrow>
     (\<forall>t q. providers st t = Some q \<longrightarrow>
        (\<exists>ins outs. type_of (Value q) = Some (TFunc ins outs) \<and> outs \<noteq> [] \<and> hd outs = t))"

text \<open>
  \<open>waits X t st\<close> describes a moment inside nested calls of \<^verbatim>\<open>resolve\<close>: \<open>X\<close> are the types
  whose resolution has started and not finished, \<open>t\<close> is the type about to be resolved.
  Each type of \<open>X\<close> has no cached instance and a provider with a parameter that is in
  \<open>X\<close> or is \<open>t\<close>. \<open>only_for X f st\<close>: the function \<open>f\<close> is registered for types of \<open>X\<close>
  only. \<open>quiet X st st'\<close>: from \<open>st\<close> to \<open>st'\<close> no type of \<open>X\<close> was cached and no function
  registered for types of \<open>X\<close> only has run.
\<close>

definition waits :: "rtype set \<Rightarrow> rtype \<Rightarrow> 'w state \<Rightarrow> bool" where
  "waits X t st \<longleftrightarrow>
     (\<forall>u\<in>X. instances st u = None \<and>
        (\<exists>q ts. providers st u = Some q \<and> params (Value q) = Inr ts \<and> (\<exists>d\<in>set ts. d \<in> X \<or> d = t)))"

definition only_for :: "rtype set \<Rightarrow> val \<Rightarrow> 'w state \<Rightarrow> bool" where
  "only_for X f st \<longleftrightarrow> (\<forall>u q. providers st u = Some q \<longrightarrow> Value q = f \<longrightarrow> u \<in> X)"

definition quiet :: "rtype set \<Rightarrow> 'w state \<Rightarrow> 'w state \<Rightarrow> bool" where
  "quiet X st st' \<longleftrightarrow>
     (\<forall>u\<in>X. instances st' u = None) \<and> (\<forall>f. only_for X f st \<longrightarrow> ncalls f st' = ncalls f st)"

text \<open>
  \<open>grows st st'\<close>: from \<open>st\<close> to \<open>st'\<close> the registry, the configuration keys and the heap
  are unchanged, every cached instance is still cached with the same value, and every
  type cached in between has a singleton provider.
\<close>

definition grows :: "'w state \<Rightarrow> 'w state \<Rightarrow> bool" where
  "grows st st' \<longleftrightarrow>
     frame st st' \<and> instances st \<subseteq>\<^sub>m instances st' \<and>
     (\<forall>u. instances st u = None \<longrightarrow> instances st' u \<noteq> None \<longrightarrow>
        (\<exists>q. providers st u = Some q \<and> Scope q = ScopeSingleton))"

section \<open>The scenario of the repository's test\<close>

text \<open>
  The types and constructors of \<^verbatim>\<open>cosmo_test.go\<close>: \<^verbatim>\<open>Config\<close> is registered as a singleton,
  \<^verbatim>\<open>DBService\<close>, which needs a \<^verbatim>\<open>Config\<close>, as a transient; nothing provides \<^verbatim>\<open>Logger\<close>. The
  world counts the \<^verbatim>\<open>SQLDBService\<close> objects allocated so far, so that each run of
  \<open>newDBService\<close> returns a new pointer. Next to them: \<open>newLogger\<close> always fails with an
  error, \<open>newLoggerPtr\<close> is a constructor whose second result is a \<^verbatim>\<open>*Config\<close>,
  \<open>newAuditedDB\<close> needs a \<^verbatim>\<open>Config\<close> and a \<^verbatim>\<open>Logger\<close>, \<open>newConfig2\<close> is a second constructor
  of \<^verbatim>\<open>Config\<close>, and \<open>useDB\<close> is a function to invoke that returns an error.
  \<open>configContainer\<close> is the container of \<^verbatim>\<open>TestConfigure\<close>.
\<close>

abbreviation ConfigT :: rtype where
  "ConfigT \<equiv> TStruct ''cosmo.Config'' [(''URL'', True, TBasic ''string'')]"

abbreviation DBServiceT :: rtype where
  "DBServiceT \<equiv> TInterface ''cosmo.DBService''"

abbreviation SQLDBServiceT :: rtype where
  "SQLDBServiceT \<equiv> TStruct ''cosmo.SQLDBService'' [(''Config'', True, ConfigT)]"

abbreviation LoggerT :: rtype where
  "LoggerT \<equiv> TInterface ''cosmo.Logger''"


abbreviation errorStringT :: rtype where
  "errorStringT \<equiv> TStruct ''errors.errorString'' [(''s'', False, TBasic ''string'')]"

abbreviation ToBindT :: rtype where
  "ToBindT \<equiv> TStruct ''cosmo.ToBind'' [(''DB'', True, DBServiceT)]"

definition newConfig :: val where
  "newConfig = VFunc [] [ConfigT] 0"

definition newDBService :: val where
  "newDBService = VFunc [ConfigT] [DBServiceT] 1"




definition newAuditedDB :: val where
  "newAuditedDB = VFunc [ConfigT, LoggerT] [DBServiceT] 5"


definition theConfig :: val where
  "theConfig = VStruct ''cosmo.Config'' [(''URL'', True, TBasic ''string'')]
                 [VBasic ''string'' ''sqlite://test.db'']"

definition otherConfig :: val where
  "otherConfig = VStruct ''cosmo.Config'' [(''URL'', True, TBasic ''string'')]
                   [VBasic ''string'' ''postgres://db'']"

definition zeroConfig :: val where
  "zeroConfig = VStruct ''cosmo.Config'' [(''URL'', True, TBasic ''string'')] [VBasic ''string'' []]"

definition testEnv :: "nat env" where
  "testEnv = \<lparr> body = (\<lambda>f args w.
       if f = 0 then (Some [theConfig], w)
       else if f = 1 then (Some [VIface ''cosmo.DBService'' (VPtr SQLDBServiceT w)], Suc w)
       else if f = 2 then
         (Some [VNilIface ''cosmo.Logger'', VIface ''error'' (VPtr errorStringT 1000)], w)
       else if f = 3 then (Some [VNilIface ''cosmo.Logger'', VPtr ConfigT 1001], w)
       else if f = 4 then (Some [VIface ''error'' (VPtr errorStringT 1002)], w)
       else if f = 5 then (Some [VIface ''cosmo.DBService'' (VPtr SQLDBServiceT w)], Suc w)
       else if f = 6 then (Some [otherConfig], w)
       else (None, w)),
     implementsError = (\<lambda>t. t = TPtr errorStringT) \<rparr>"

text \<open>
  The heap of the scenario holds two structs to bind: a \<^verbatim>\<open>ToBind\<close> at address 8, as in the
  test, and at address 9 a struct with a \<^verbatim>\<open>Config\<close> field followed by a \<^verbatim>\<open>Logger\<close> field.
\<close>

definition testHeap :: "nat \<Rightarrow> val" where
  "testHeap = (\<lambda>a. VZero)
     (8 := VStruct ''cosmo.ToBind'' [(''DB'', True, DBServiceT)] [VNilIface ''cosmo.DBService''],
      9 := VStruct ''cosmo.Handlers'' [(''Cfg'', True, ConfigT), (''Log'', True, LoggerT)]
             [zeroConfig, VNilIface ''cosmo.Logger''])"

definition emptyContainer :: "nat state" where
  "emptyContainer = New testHeap 0"

definition testContainer :: "nat state" where
  "testContainer = snd (Add newDBService (snd (AddSingleton newConfig emptyContainer)))"



definition auditContainer :: "nat state" where
  "auditContainer = snd (Add newAuditedDB (snd (AddSingleton newConfig emptyContainer)))"


section \<open>The steps of resolve\<close>

lemma Call_cases:
  assumes "Call E v args st = (x, st')"
  shows "(\<exists>pc. x = Inl pc \<and> st' = st \<and> (\<forall>ins outs f. v \<noteq> VFunc ins outs f)) \<or>
         (\<exists>ins outs f w'. v = VFunc ins outs f \<and> st' = st\<lparr>world := w', calls := calls st @ [(v, args)]\<rparr>)"
  using assms by (auto simp: Call_def split: val.splits prod.splits option.splits)

lemma construct_cases:
  assumes "construct E t p args st = (r, st')"
  shows "(\<exists>pc. r = Panic pc \<and> st' = st \<and> (\<forall>ins outs f. Value p \<noteq> VFunc ins outs f)) \<or>
         (\<exists>ins outs f w'. Value p = VFunc ins outs f \<and>
            (((\<forall>v. r \<noteq> Ok v) \<and> st' = st\<lparr>world := w', calls := calls st @ [(Value p, args)]\<rparr>) \<or>
             (\<exists>v. r = Ok v \<and> st' = (if Scope p = ScopeSingleton
                then st\<lparr>world := w', calls := calls st @ [(Value p, args)], instances := (instances st)(t \<mapsto> v)\<rparr>
                else st\<lparr>world := w', calls := calls st @ [(Value p, args)]\<rparr>))))"
proof -
  obtain x st1 where c: "Call E (Value p) args st = (x, st1)" by (cases "Call E (Value p) args st")
  from Call_cases[OF c] show ?thesis
  proof
    assume "\<exists>pc. x = Inl pc \<and> st1 = st \<and> (\<forall>ins outs f. Value p \<noteq> VFunc ins outs f)"
    with assms c show ?thesis by (auto simp: construct_def)
  next
    assume "\<exists>ins outs f w'. Value p = VFunc ins outs f \<and> st1 = st\<lparr>world := w', calls := calls st @ [(Value p, args)]\<rparr>"
    then obtain ins outs f w' where v: "Value p = VFunc ins outs f"
      and s: "st1 = st\<lparr>world := w', calls := calls st @ [(Value p, args)]\<rparr>" by blast
    from assms c s have "((\<forall>v. r \<noteq> Ok v) \<and> st' = st1) \<or>
             (\<exists>v. r = Ok v \<and> st' = (if Scope p = ScopeSingleton
                then st1\<lparr>instances := (instances st1)(t \<mapsto> v)\<rparr> else st1))"
      by (cases x) (auto simp: construct_def split: if_splits sum.splits bool.splits list.splits option.splits)
    with v s show ?thesis
      apply (intro disjI2)
      apply (rule exI[of _ ins], rule exI[of _ outs], rule exI[of _ f], rule exI[of _ w'])
      by auto
  qed
qed

lemma resolve_Suc_cases:
  assumes "resolve E (Suc n) t st = Some (r, st')"
  shows "(\<exists>v. instances st t = Some v \<and> r = Ok v \<and> st' = st) \<or>
         (instances st t = None \<and> providers st t = None \<and>
            r = Err (ErrNew (''no provider for type '' @ typeString t)) \<and> st' = st) \<or>
         (\<exists>p pc. instances st t = None \<and> providers st t = Some p \<and> params (Value p) = Inl pc \<and>
            r = Panic pc \<and> st' = st) \<or>
         (\<exists>p ts ra. instances st t = None \<and> providers st t = Some p \<and> params (Value p) = Inr ts \<and>
            resolve_args E n ts st = Some (ra, st') \<and> (\<forall>vs. ra \<noteq> Ok vs) \<and> (\<forall>v. r \<noteq> Ok v)) \<or>
         (\<exists>p ts args st1. instances st t = None \<and> providers st t = Some p \<and> params (Value p) = Inr ts \<and>
            resolve_args E n ts st = Some (Ok args, st1) \<and> construct E t p args st1 = (r, st'))"
  using assms
  by (auto split: option.splits sum.splits prod.splits result.splits)

lemma resolve_args_Cons_cases:
  assumes "resolve_args E n (t # ts) st = Some (rs, st')"
  shows "(\<exists>r. resolve E n t st = Some (r, st') \<and> (\<forall>v. r \<noteq> Ok v) \<and> (\<forall>vs. rs \<noteq> Ok vs)) \<or>
         (\<exists>v st1. resolve E n t st = Some (Ok v, st1) \<and>
            ((\<exists>ra. resolve_args E n ts st1 = Some (ra, st') \<and> (\<forall>vs. ra \<noteq> Ok vs) \<and> (\<forall>vs. rs \<noteq> Ok vs)) \<or>
             (\<exists>vs. resolve_args E n ts st1 = Some (Ok vs, st') \<and> rs = Ok (v # vs))))"
  using assms
  by (auto split: option.splits sum.splits prod.splits result.splits)

lemma frame_refl: "frame st st"
  by (simp add: frame_def)
lemma frame_trans: "frame a b \<Longrightarrow> frame b c \<Longrightarrow> frame a c"
  by (simp add: frame_def)

lemma construct_frame:
  assumes "construct E t p args st = (r, st')"
  shows "frame st st'"
  using construct_cases[OF assms] by (auto simp: frame_def split: if_splits)

lemma resolve_frame:
  "resolve E n t st = Some (r, st') \<Longrightarrow> frame st st'"
  "resolve_args E n ts st = Some (rs, st') \<Longrightarrow> frame st st'"
proof (induction E n t st and E n ts st arbitrary: r st' and rs st' rule: resolve_resolve_args.induct)
  case (1 E t st)
  then show ?case by simp
next
  case (2 E n t st)
  from resolve_Suc_cases[OF "2.prems"] show ?case
  proof (elim disjE exE conjE)
    fix p ts ra
    assume "instances st t = None" "providers st t = Some p" "params (Value p) = Inr ts"
      "resolve_args E n ts st = Some (ra, st')"
    then show ?thesis using "2.IH" by blast
  next
    fix p ts args st1
    assume a: "instances st t = None" "providers st t = Some p" "params (Value p) = Inr ts"
      "resolve_args E n ts st = Some (Ok args, st1)" and c: "construct E t p args st1 = (r, st')"
    from a have "frame st st1" using "2.IH" by blast
    with construct_frame[OF c] show ?thesis by (blast intro: frame_trans)
  qed (simp_all add: frame_refl)
next
  case (3 E n st)
  then show ?case by (simp add: frame_refl)
next
  case (4 E n t ts st)
  from resolve_args_Cons_cases[OF "4.prems"] show ?case
  proof (elim disjE exE conjE)
    fix r assume "resolve E n t st = Some (r, st')"
    then show ?thesis using "4.IH"(1) by blast
  next
    fix v st1 ra
    assume a: "resolve E n t st = Some (Ok v, st1)" and b: "resolve_args E n ts st1 = Some (ra, st')"
    from a have "frame st st1" using "4.IH"(1) by blast
    moreover from a b have "frame st1 st'" using "4.IH"(2) by blast
    ultimately show ?thesis by (blast intro: frame_trans)
  next
    fix v st1 vs
    assume a: "resolve E n t st = Some (Ok v, st1)" and b: "resolve_args E n ts st1 = Some (Ok vs, st')"
    from a have "frame st st1" using "4.IH"(1) by blast
    moreover from a b have "frame st1 st'" using "4.IH"(2) by blast
    ultimately show ?thesis by (blast intro: frame_trans)
  qed
qed

section \<open>Types whose resolution is in progress\<close>

lemma quiet_refl: "\<forall>u\<in>X. instances st u = None \<Longrightarrow> quiet X st st"
  by (simp add: quiet_def)

lemma only_for_frame: "frame st st' \<Longrightarrow> only_for X f st' = only_for X f st"
  by (simp add: only_for_def frame_def)

lemma quiet_trans: "quiet X a b \<Longrightarrow> frame a b \<Longrightarrow> quiet X b c \<Longrightarrow> quiet X a c"
  by (simp add: quiet_def only_for_frame)

lemma only_for_mono: "only_for X f st \<Longrightarrow> X \<subseteq> Y \<Longrightarrow> only_for Y f st"
  unfolding only_for_def by blast

lemma quiet_subset:
  assumes "quiet Y a b" "X \<subseteq> Y"
  shows "quiet X a b"
proof -
  have "\<forall>u\<in>X. instances b u = None" using assms by (auto simp: quiet_def)
  moreover have "ncalls f b = ncalls f a" if "only_for X f a" for f
    using only_for_mono[OF that assms(2)] assms(1) by (simp add: quiet_def)
  ultimately show ?thesis by (simp add: quiet_def)
qed

lemma waits_step: "waits X t st \<Longrightarrow> frame st st' \<Longrightarrow> \<forall>u\<in>X. instances st' u = None \<Longrightarrow> waits X t st'"
  by (simp add: waits_def frame_def)

lemma waits_uncached: "waits X t st \<Longrightarrow> \<forall>u\<in>X. instances st u = None"
  by (simp add: waits_def)

lemma waits_insert:
  assumes "waits X t st" "instances st t = None" "providers st t = Some p" "params (Value p) = Inr ts"
    "d \<in> set ts"
  shows "waits (insert t X) d st"
  unfolding waits_def
proof (intro ballI conjI)
  fix u assume u: "u \<in> insert t X"
  show "instances st u = None" using u assms(1,2) by (auto simp: waits_def)
  show "\<exists>q ts. providers st u = Some q \<and> params (Value q) = Inr ts \<and>
          (\<exists>da\<in>set ts. da \<in> insert t X \<or> da = d)"
  proof (cases "u = t")
    case True
    with assms(3,4,5) show ?thesis by blast
  next
    case False
    with u have "u \<in> X" by simp
    with assms(1) obtain q ts' where "providers st u = Some q" "params (Value q) = Inr ts'"
      "\<exists>da\<in>set ts'. da \<in> X \<or> da = t" unfolding waits_def by blast
    then show ?thesis by blast
  qed
qed

lemma waits_member:
  assumes "waits X t st" "t \<in> X" "providers st t = Some p" "params (Value p) = Inr ts"
  shows "\<exists>d\<in>set ts. d \<in> X"
  using assms unfolding waits_def by fastforce

lemma construct_quiet:
  assumes c: "construct E t p args st = (r, st')" and p: "providers st t = Some p" and t: "t \<notin> X"
    and u: "\<forall>u\<in>X. instances st u = None"
  shows "quiet X st st'"
proof -
  have f: "only_for X f st \<Longrightarrow> Value p \<noteq> f" for f
    using p t by (auto simp: only_for_def)
  from construct_cases[OF c] show ?thesis
    using u t f by (auto simp: quiet_def ncalls_def split: if_splits)
qed

lemma resolve_quiet:
  "waits X t st \<Longrightarrow> resolve E n t st = Some (r, st') \<Longrightarrow>
     quiet X st st' \<and> (t \<in> X \<longrightarrow> (\<forall>v. r \<noteq> Ok v))"
  "\<forall>d\<in>set ts. waits X d st \<Longrightarrow> \<forall>u\<in>X. instances st u = None \<Longrightarrow>
   resolve_args E n ts st = Some (rs, st') \<Longrightarrow>
     quiet X st st' \<and> (set ts \<inter> X \<noteq> {} \<longrightarrow> (\<forall>vs. rs \<noteq> Ok vs))"
proof (induction E n t st and E n ts st arbitrary: X r st' and X rs st' rule: resolve_resolve_args.induct)
  case (1 E t st)
  then show ?case by simp
next
  case (2 E n t st)
  note w = \<open>waits X t st\<close>
  have u: "\<forall>u\<in>X. instances st u = None" using w by (rule waits_uncached)
  from resolve_Suc_cases[OF "2.prems"(2)] show ?case
  proof (elim disjE exE conjE)
    fix v assume "instances st t = Some v" "r = Ok v" "st' = st"
    with u show ?thesis by (auto simp: quiet_refl)
  next
    assume "r = Err (ErrNew (''no provider for type '' @ typeString t))" "st' = st"
    with u show ?thesis by (simp add: quiet_refl)
  next
    fix p pc assume "r = Panic pc" "st' = st"
    with u show ?thesis by (simp add: quiet_refl)
  next
    fix p ts ra
    assume a: "instances st t = None" "providers st t = Some p" "params (Value p) = Inr ts"
      and b: "resolve_args E n ts st = Some (ra, st')" and c: "\<forall>v. r \<noteq> Ok v"
    have "\<forall>d\<in>set ts. waits (insert t X) d st" using waits_insert[OF w a] by blast
    moreover have "\<forall>u\<in>insert t X. instances st u = None" using u a by simp
    ultimately have "quiet (insert t X) st st'" using "2.IH"[OF a] b by blast
    then show ?thesis using c by (auto intro: quiet_subset)
  next
    fix p ts args st1
    assume a: "instances st t = None" "providers st t = Some p" "params (Value p) = Inr ts"
      and b: "resolve_args E n ts st = Some (Ok args, st1)" and c: "construct E t p args st1 = (r, st')"
    have "\<forall>d\<in>set ts. waits (insert t X) d st" using waits_insert[OF w a] by blast
    moreover have "\<forall>u\<in>insert t X. instances st u = None" using u a by simp
    ultimately have q: "quiet (insert t X) st st1" and k: "set ts \<inter> insert t X = {}"
      using "2.IH"[OF a] b by blast+
    have tX: "t \<notin> X"
    proof
      assume "t \<in> X"
      from waits_member[OF w this a(2,3)] k show False by auto
    qed
    have f: "frame st st1" using resolve_frame(2)[OF b] .
    have q1: "quiet X st st1" using q by (auto intro: quiet_subset)
    have "quiet X st1 st'"
      using construct_quiet[OF c _ tX] a(2) f q1 by (simp add: frame_def quiet_def)
    with q1 f have "quiet X st st'" by (rule quiet_trans)
    with tX show ?thesis by simp
  qed
next
  case (3 E n st)
  then show ?case by (simp add: quiet_refl)
next
  case (4 E n t ts st)
  have wt: "waits X t st" and wts: "\<forall>d\<in>set ts. waits X d st" using "4.prems"(1) by simp_all
  from resolve_args_Cons_cases[OF "4.prems"(3)] show ?case
  proof (elim disjE exE conjE)
    fix r assume a: "resolve E n t st = Some (r, st')" and b: "\<forall>vs. rs \<noteq> Ok vs"
    from "4.IH"(1)[OF wt a] b show ?thesis by simp
  next
    fix v st1 ra
    assume a: "resolve E n t st = Some (Ok v, st1)" and b: "resolve_args E n ts st1 = Some (ra, st')"
      and c: "\<forall>vs. rs \<noteq> Ok vs"
    from "4.IH"(1)[OF wt a] have q1: "quiet X st st1" by simp
    have f: "frame st st1" using resolve_frame(1)[OF a] .
    have u1: "\<forall>u\<in>X. instances st1 u = None" using q1 by (simp add: quiet_def)
    have "\<forall>d\<in>set ts. waits X d st1" using wts f u1 by (blast intro: waits_step)
    from "4.IH"(2)[OF a refl refl this u1 b] have "quiet X st1 st'" by simp
    with q1 f have "quiet X st st'" by (rule quiet_trans)
    with c show ?thesis by simp
  next
    fix v st1 vs
    assume a: "resolve E n t st = Some (Ok v, st1)" and b: "resolve_args E n ts st1 = Some (Ok vs, st')"
      and c: "rs = Ok (v # vs)"
    from "4.IH"(1)[OF wt a] have q1: "quiet X st st1" and tX: "t \<notin> X" by auto
    have f: "frame st st1" using resolve_frame(1)[OF a] .
    have u1: "\<forall>u\<in>X. instances st1 u = None" using q1 by (simp add: quiet_def)
    have "\<forall>d\<in>set ts. waits X d st1" using wts f u1 by (blast intro: waits_step)
    from "4.IH"(2)[OF a refl refl this u1 b] have q2: "quiet X st1 st'" and k: "set ts \<inter> X = {}" by auto
    from q1 f q2 have "quiet X st st'" by (rule quiet_trans)
    with tX k show ?thesis by simp
  qed
qed

lemma resolve_args_own:
  assumes "instances st t = None" "providers st t = Some p" "params (Value p) = Inr ts"
    and r: "resolve_args E n ts st = Some (rs, st1)"
  shows "quiet {t} st st1"
proof -
  have "waits {} t st" by (simp add: waits_def)
  then have "\<forall>d\<in>set ts. waits {t} d st"
    using waits_insert[OF _ assms(1,2,3)] by blast
  moreover have "\<forall>u\<in>{t}. instances st u = None" using assms(1) by simp
  ultimately show ?thesis using resolve_quiet(2)[OF _ _ r] by blast
qed

lemma resolve_args_own_uncached:
  assumes "instances st t = None" "providers st t = Some p" "params (Value p) = Inr ts"
    and "resolve_args E n ts st = Some (rs, st1)"
  shows "instances st1 t = None"
  using resolve_args_own[OF assms] by (simp add: quiet_def)

lemma keyed_only_for:
  assumes "keyed st" "providers st t = Some p"
  shows "only_for {t} (Value p) st"
  unfolding only_for_def
proof (intro allI impI)
  fix u q assume a: "providers st u = Some q" "Value q = Value p"
  from assms(1) a(1) obtain ins outs where "type_of (Value q) = Some (TFunc ins outs)" "hd outs = u"
    unfolding keyed_def by blast
  moreover from assms obtain ins' outs' where "type_of (Value p) = Some (TFunc ins' outs')" "hd outs' = t"
    unfolding keyed_def by blast
  ultimately show "u \<in> {t}" using a(2) by simp
qed

lemma resolve_args_own_ncalls:
  assumes "keyed st" "instances st t = None" "providers st t = Some p" "params (Value p) = Inr ts"
    and "resolve_args E n ts st = Some (rs, st1)"
  shows "ncalls (Value p) st1 = ncalls (Value p) st"
  using resolve_args_own[OF assms(2-5)] keyed_only_for[OF assms(1,3)] by (simp add: quiet_def)


section \<open>What resolve preserves\<close>

lemma resolve_rel:
  assumes refl: "\<And>s. R s s" and trans: "\<And>a b c. R a b \<Longrightarrow> R b c \<Longrightarrow> R a c"
    and step: "\<And>E t p args s r s'. instances s t = None \<Longrightarrow> providers s t = Some p \<Longrightarrow>
                 construct E t p args s = (r, s') \<Longrightarrow> R s s'"
  shows "resolve E n t st = Some (r, st') \<Longrightarrow> R st st'"
    and "resolve_args E n ts st = Some (rs, st') \<Longrightarrow> R st st'"
proof (induction E n t st and E n ts st arbitrary: r st' and rs st' rule: resolve_resolve_args.induct)
  case (1 E t st)
  then show ?case by simp
next
  case (2 E n t st)
  from resolve_Suc_cases[OF "2.prems"] show ?case
  proof (elim disjE exE conjE)
    fix p ts ra
    assume "instances st t = None" "providers st t = Some p" "params (Value p) = Inr ts"
      "resolve_args E n ts st = Some (ra, st')"
    then show ?thesis using "2.IH" by blast
  next
    fix p ts args st1
    assume a: "instances st t = None" "providers st t = Some p" "params (Value p) = Inr ts"
      and b: "resolve_args E n ts st = Some (Ok args, st1)" and c: "construct E t p args st1 = (r, st')"
    have 1: "R st st1" using "2.IH"[OF a b] by blast
    have "instances st1 t = None" using resolve_args_own_uncached[OF a b] .
    moreover have "providers st1 t = Some p" using resolve_frame(2)[OF b] a(2) by (simp add: frame_def)
    ultimately have "R st1 st'" using c step by blast
    with 1 show ?thesis using trans by blast
  qed (simp_all add: refl)
next
  case (3 E n st)
  then show ?case by (simp add: refl)
next
  case (4 E n t ts st)
  from resolve_args_Cons_cases[OF "4.prems"] show ?case
  proof (elim disjE exE conjE)
    fix r assume "resolve E n t st = Some (r, st')"
    then show ?thesis using "4.IH"(1) by blast
  next
    fix v st1 ra
    assume a: "resolve E n t st = Some (Ok v, st1)" and b: "resolve_args E n ts st1 = Some (ra, st')"
    from a have "R st st1" using "4.IH"(1) by blast
    moreover from a b have "R st1 st'" using "4.IH"(2) by blast
    ultimately show ?thesis using trans by blast
  next
    fix v st1 vs
    assume a: "resolve E n t st = Some (Ok v, st1)" and b: "resolve_args E n ts st1 = Some (Ok vs, st')"
    from a have "R st st1" using "4.IH"(1) by blast
    moreover from a b have "R st1 st'" using "4.IH"(2) by blast
    ultimately show ?thesis using trans by blast
  qed
qed

lemma grows_refl: "grows s s"
  by (simp add: grows_def frame_refl)

lemma grows_trans:
  assumes "grows a b" "grows b c"
  shows "grows a c"
proof -
  have f: "frame a b" "frame b c" using assms by (simp_all add: grows_def)
  have m: "instances a \<subseteq>\<^sub>m instances b" "instances b \<subseteq>\<^sub>m instances c"
    using assms by (simp_all add: grows_def)
  have "\<exists>q. providers a u = Some q \<and> Scope q = ScopeSingleton"
    if "instances a u = None" "instances c u \<noteq> None" for u
  proof (cases "instances b u")
    case None
    with that(2) assms(2) f(1) show ?thesis by (simp add: grows_def frame_def)
  next
    case (Some x)
    with that(1) assms(1) show ?thesis by (simp add: grows_def)
  qed
  with f m show ?thesis
    unfolding grows_def by (blast intro: frame_trans map_le_trans)
qed

lemma construct_grows:
  assumes "instances s t = None" "providers s t = Some p" "construct E t p args s = (r, s')"
  shows "grows s s'"
  using construct_cases[OF assms(3)] assms(1,2)
  by (auto simp: grows_def frame_def map_le_def split: if_splits)

lemma resolve_grows:
  "resolve E n t st = Some (r, st') \<Longrightarrow> grows st st'"
  "resolve_args E n ts st = Some (rs, st') \<Longrightarrow> grows st st'"
proof -
  have 1: "\<And>s::'a state. grows s s"
    by (rule grows_refl)
  have 2: "\<And>a b c::'a state. grows a b \<Longrightarrow> grows b c \<Longrightarrow> grows a c"
    by (rule grows_trans)
  have 3: "\<And>(E::'a env) t p args s r s'. instances s t = None \<Longrightarrow> providers s t = Some p \<Longrightarrow>
             construct E t p args s = (r, s') \<Longrightarrow> grows s s'"
    by (rule construct_grows)
  show "resolve E n t st = Some (r, st') \<Longrightarrow> grows st st'"
    by (rule resolve_rel(1)[of grows, OF 1 2 3])
  show "resolve_args E n ts st = Some (rs, st') \<Longrightarrow> grows st st'"
    by (rule resolve_rel(2)[of grows, OF 1 2 3])
qed

lemma construct_fail:
  assumes "construct E t p args s = (r, s')" "\<forall>v. r \<noteq> Ok v"
  shows "instances s' = instances s"
  using construct_cases[OF assms(1)] assms(2) by (auto split: if_splits)

lemma construct_Ok:
  assumes "construct E t p args s = (Ok v, s')"
  shows "instances s' = (if Scope p = ScopeSingleton then (instances s)(t \<mapsto> v) else instances s)"
    and "ncalls (Value p) s' = Suc (ncalls (Value p) s)"
  using construct_cases[OF assms(1)] by (auto simp: ncalls_def split: if_splits)

section \<open>More depth changes nothing\<close>

lemma resolve_fuel_Suc:
  "resolve E n t st = Some x \<Longrightarrow> resolve E (Suc n) t st = Some x"
  "resolve_args E n ts st = Some y \<Longrightarrow> resolve_args E (Suc n) ts st = Some y"
proof (induction E n t st and E n ts st arbitrary: x and y rule: resolve_resolve_args.induct)
  case (1 E t st)
  then show ?case by simp
next
  case (2 E n t st)
  show ?case
  proof (cases "instances st t")
    case (Some v)
    with "2.prems" show ?thesis by simp
  next
    case None
    note i = this
    show ?thesis
    proof (cases "providers st t")
      case None
      with i "2.prems" show ?thesis by simp
    next
      case (Some p)
      show ?thesis
      proof (cases "params (Value p)")
        case (Inl pc)
        with i Some "2.prems" show ?thesis by simp
      next
        case (Inr ts)
        show ?thesis
        proof (cases "resolve_args E n ts st")
          case None
          with i Some Inr "2.prems" show ?thesis by simp
        next
          case (Some y)
          from "2.IH"[OF i \<open>providers st t = Some p\<close> Inr Some]
          have "resolve_args E (Suc n) ts st = Some y" .
          moreover have "resolve E (Suc n) t st = Some x" using "2.prems" .
          ultimately show ?thesis
            using i \<open>providers st t = Some p\<close> Inr Some
            by (simp del: resolve.simps(2) resolve_args.simps add: resolve.simps(2)[of E "Suc n"] resolve.simps(2)[of E n])
        qed
      qed
    qed
  qed
next
  case (3 E n st)
  then show ?case by simp
next
  case (4 E n t ts st)
  show ?case
  proof (cases "resolve E n t st")
    case None
    with "4.prems" show ?thesis by simp
  next
    case (Some x)
    obtain r st1 where x: "x = (r, st1)" by (cases x)
    have 1: "resolve E (Suc n) t st = Some (r, st1)" using "4.IH"(1)[OF Some] x by simp
    show ?thesis
    proof (cases r)
      case (Ok v)
      show ?thesis
      proof (cases "resolve_args E n ts st1")
        case None
        with "4.prems" Some x Ok show ?thesis by simp
      next
        case (Some z)
        from "4.IH"(2)[OF \<open>resolve E n t st = Some x\<close>[unfolded x Ok] refl refl Some]
        have "resolve_args E (Suc n) ts st1 = Some z" .
        with "4.prems" \<open>resolve E n t st = Some x\<close> x Ok Some 1 show ?thesis
          by (simp del: resolve.simps(2) add: resolve_args.simps(2)[of E "Suc n"])
      qed
    next
      case (Err e)
      with "4.prems" Some x 1 show ?thesis
        by (simp del: resolve.simps(2) add: resolve_args.simps(2)[of E "Suc n"])
    next
      case (Panic pc)
      with "4.prems" Some x 1 show ?thesis
        by (simp del: resolve.simps(2) add: resolve_args.simps(2)[of E "Suc n"])
    qed
  qed
qed

section \<open>Registration\<close>


lemma spec_Ok:
  assumes "spec f = Ok (t, v)"
  shows "\<exists>ins outs. type_of v = Some (TFunc ins outs) \<and> outs \<noteq> [] \<and> hd outs = t"
  using assms by (auto simp: spec_def Let_def split: option.splits rtype.splits if_splits)

lemma AddWithScope_cases:
  assumes "AddWithScope s f c = (r, c')"
  shows "(\<exists>t v. spec f = Ok (t, v) \<and> r = Ok () \<and>
            c' = c\<lparr>providers := (providers c)(t \<mapsto> \<lparr>Type = t, Value = v, Scope = s\<rparr>)\<rparr>) \<or>
         ((\<forall>u. r \<noteq> Ok u) \<and> c' = c)"
  using assms by (auto simp: AddWithScope_def split: result.splits)

lemma keyed_AddWithScope:
  assumes "keyed c" "AddWithScope s f c = (r, c')"
  shows "keyed c'"
  using AddWithScope_cases[OF assms(2)]
proof (elim disjE exE conjE)
  fix t v assume a: "spec f = Ok (t, v)"
    and c: "c' = c\<lparr>providers := (providers c)(t \<mapsto> \<lparr>Type = t, Value = v, Scope = s\<rparr>)\<rparr>"
  from spec_Ok[OF a] assms(1) show ?thesis unfolding keyed_def c by auto
next
  assume "c' = c" with assms(1) show ?thesis by simp
qed





section \<open>Invoke, Bind and Get\<close>









lemma resolve_args_length:
  "resolve_args E n ts st = Some (Ok vs, st') \<Longrightarrow> length vs = length ts"
proof (induction ts arbitrary: st vs)
  case Nil
  then show ?case by simp
next
  case (Cons t ts)
  from resolve_args_Cons_cases[OF Cons.prems] Cons.IH show ?case by auto
qed

section \<open>Every container built from New is keyed\<close>

lemma keyed_providers: "providers st' = providers st \<Longrightarrow> keyed st \<Longrightarrow> keyed st'"
  by (simp add: keyed_def)

lemma keyed_Add: "keyed c \<Longrightarrow> Add f c = (r, c') \<Longrightarrow> keyed c'"
  by (auto simp: Add_def split: prod.splits result.splits dest: keyed_AddWithScope)

lemma keyed_AddSingleton: "keyed c \<Longrightarrow> AddSingleton f c = (r, c') \<Longrightarrow> keyed c'"
  by (auto simp: AddSingleton_def split: prod.splits result.splits dest: keyed_AddWithScope)

lemma keyed_Configure:
  assumes "keyed c" "Configure key f c = (r, c')"
  shows "keyed c'"
proof (cases "AddSingleton f c")
  case (Pair u c1)
  have "keyed c1" using keyed_AddSingleton[OF assms(1) Pair] .
  moreover have "providers c' = providers c1 \<or> c' = c"
    using assms(2) Pair by (auto simp: Configure_def split: result.splits prod.splits)
  ultimately show ?thesis using assms(1) by (auto intro: keyed_providers)
qed

lemma keyed_resolve: "keyed st \<Longrightarrow> resolve E n t st = Some (r, st') \<Longrightarrow> keyed st'"
  using resolve_frame(1) keyed_providers unfolding frame_def by blast

lemma Call_providers:
  assumes "Call E v args st = (x, st')"
  shows "providers st' = providers st"
  using Call_cases[OF assms] by auto

lemma Invoke_providers:
  assumes "Invoke E n fn st = Some (r, st')"
  shows "providers st' = providers st"
proof (cases "type_of (ValueOf fn)")
  case None
  with assms show ?thesis by (simp add: Invoke_def)
next
  case (Some ty)
  show ?thesis
  proof (cases ty)
    case (TFunc ins outs)
    show ?thesis
    proof (cases "resolve_args E n ins st")
      case None
      with assms Some TFunc show ?thesis by (simp add: Invoke_def)
    next
      case (Some x)
      obtain ra st1 where x: "x = (ra, st1)" by (cases x)
      have g: "providers st1 = providers st"
        using resolve_frame(2)[OF Some[unfolded x]] by (simp add: frame_def)
      show ?thesis
      proof (cases ra)
        case (Ok args)
        obtain y st2 where c: "Call E (ValueOf fn) args st1 = (y, st2)"
          by (cases "Call E (ValueOf fn) args st1")
        have "st' = st2"
          using assms \<open>type_of (ValueOf fn) = Some ty\<close> TFunc Some x Ok c
          by (cases y) (simp_all add: Invoke_def)
        with Call_providers[OF c] g show ?thesis by simp
      next
        case (Err e)
        with assms \<open>type_of (ValueOf fn) = Some ty\<close> TFunc Some x g show ?thesis
          by (simp add: Invoke_def)
      next
        case (Panic pc)
        with assms \<open>type_of (ValueOf fn) = Some ty\<close> TFunc Some x g show ?thesis
          by (simp add: Invoke_def)
      qed
    qed
  qed (use assms Some in \<open>simp_all add: Invoke_def\<close>)
qed

lemma set_field_providers: "providers (set_field a i x st) = providers st"
  by (simp add: set_field_def split: val.splits)

lemma Bind_fields_providers:
  "Bind_fields E n a i fs st = Some (r, st') \<Longrightarrow> providers st' = providers st"
proof (induction fs arbitrary: i st)
  case Nil
  then show ?case by simp
next
  case (Cons f fs)
  show ?case
  proof (cases "resolve E n (field_type f) st")
    case None
    with Cons.prems show ?thesis by simp
  next
    case (Some x)
    obtain rr st1 where x: "x = (rr, st1)" by (cases x)
    have g: "providers st1 = providers st"
      using resolve_frame(1)[OF Some[unfolded x]] by (simp add: frame_def)
    show ?thesis
    proof (cases rr)
      case (Ok v)
      show ?thesis
      proof (cases "field_exported f")
        case True
        with Cons.prems Some x Ok
        have "Bind_fields E n a (Suc i) fs (set_field a i v st1) = Some (r, st')" by simp
        from Cons.IH[OF this] g show ?thesis by (simp add: set_field_providers)
      next
        case False
        with Cons.prems Some x Ok g show ?thesis by simp
      qed
    next
      case (Err e)
      with Cons.prems Some x g show ?thesis by simp
    next
      case (Panic pc)
      with Cons.prems Some x g show ?thesis by simp
    qed
  qed
qed

lemma Bind_providers:
  assumes "Bind E n out st = Some (r, st')"
  shows "providers st' = providers st"
proof (cases "ValueOf out")
  case (VPtr t a)
  show ?thesis
  proof (cases "heap st a")
    case (VStruct nm fs xs)
    with assms VPtr have "Bind_fields E n a 0 fs st = Some (r, st')" by (simp add: Bind_def)
    then show ?thesis by (rule Bind_fields_providers)
  qed (use assms VPtr in \<open>simp_all add: Bind_def\<close>)
qed (use assms in \<open>simp_all add: Bind_def\<close>)

lemma Get_providers:
  assumes "Get E n key st = Some (r, st')"
  shows "providers st' = providers st"
proof (cases "configurations st key")
  case None
  with assms show ?thesis by (simp add: Get_def)
next
  case (Some t)
  show ?thesis
  proof (cases "resolve E n t st")
    case None
    with assms Some show ?thesis by (simp add: Get_def)
  next
    case (Some x)
    obtain rr st1 where x: "x = (rr, st1)" by (cases x)
    have g: "providers st1 = providers st"
      using resolve_frame(1)[OF Some[unfolded x]] by (simp add: frame_def)
    with assms \<open>configurations st key = Some t\<close> Some x show ?thesis
      by (cases rr) (auto simp: Get_def split: sum.splits)
  qed
qed

lemma keyed_Invoke: "keyed st \<Longrightarrow> Invoke E n fn st = Some (r, st') \<Longrightarrow> keyed st'"
  using Invoke_providers keyed_providers by blast

lemma keyed_Bind: "keyed st \<Longrightarrow> Bind E n out st = Some (r, st') \<Longrightarrow> keyed st'"
  using Bind_providers keyed_providers by blast

lemma keyed_Get: "keyed st \<Longrightarrow> Get E n key st = Some (r, st') \<Longrightarrow> keyed st'"
  using Get_providers keyed_providers by blast

section \<open>Binding and the heap\<close>

lemma construct_heap:
  "construct E t p args (st\<lparr>heap := h\<rparr>) =
     (case construct E t p args st of (r, s) \<Rightarrow> (r, s\<lparr>heap := h\<rparr>))"
  by (simp add: construct_def Call_def split: val.splits prod.splits option.splits sum.splits
        bool.splits list.splits)

lemma resolve_heap:
  "resolve E n t (st\<lparr>heap := h\<rparr>) =
     (case resolve E n t st of None \<Rightarrow> None | Some (r, s) \<Rightarrow> Some (r, s\<lparr>heap := h\<rparr>))"
  "resolve_args E n ts (st\<lparr>heap := h\<rparr>) =
     (case resolve_args E n ts st of None \<Rightarrow> None | Some (r, s) \<Rightarrow> Some (r, s\<lparr>heap := h\<rparr>))"
proof (induction E n t st and E n ts st rule: resolve_resolve_args.induct)
  case (1 E t st)
  then show ?case by simp
next
  case (2 E n t st)
  show ?case
  proof (cases "instances st t")
    case (Some v)
    then show ?thesis by simp
  next
    case None
    note i = this
    show ?thesis
    proof (cases "providers st t")
      case None
      with i show ?thesis by simp
    next
      case (Some p)
      show ?thesis
      proof (cases "params (Value p)")
        case (Inl pc)
        with i Some show ?thesis by simp
      next
        case (Inr ts)
        from "2.IH"[OF i Some Inr] i Some Inr show ?thesis
          by (simp add: construct_heap split: option.splits prod.splits result.splits)
      qed
    qed
  qed
next
  case (3 E n st)
  then show ?case by simp
next
  case (4 E n t ts st)
  show ?case
  proof (cases "resolve E n t st")
    case None
    with "4.IH"(1) show ?thesis by simp
  next
    case (Some x)
    obtain r st1 where x: "x = (r, st1)" by (cases x)
    show ?thesis
    proof (cases r)
      case (Ok v)
      from "4.IH"(2)[OF Some[unfolded x Ok] refl refl] "4.IH"(1) Some x Ok show ?thesis
        by (simp split: option.splits prod.splits result.splits)
    next
      case (Err e)
      with "4.IH"(1) Some x show ?thesis by simp
    next
      case (Panic pc)
      with "4.IH"(1) Some x show ?thesis by simp
    qed
  qed
qed

lemma splice_step:
  assumes "i < length ys"
  shows "take (Suc i) (ys[i := v]) @ vs @ drop (Suc i + k) (ys[i := v]) =
         take i ys @ (v # vs) @ drop (i + Suc k) ys"
  using assms by (simp add: take_Suc_conv_app_nth)

lemma heap_unchanged:
  assumes "heap s = h" "h a = x"
  shows "s\<lparr>heap := h(a := x)\<rparr> = s"
proof -
  have "h(a := x) = h" using assms(2) by (rule fun_upd_idem)
  then show ?thesis using assms(1) by simp
qed

lemma heap_update_twice:
  assumes "h' = h''"
  shows "(s\<lparr>heap := h\<rparr>)\<lparr>heap := h'\<rparr> = s\<lparr>heap := h''\<rparr>"
  using assms by simp

lemma Bind_fields_stops:
  assumes "heap st a = VStruct nm fs0 ys" "i + length fs = length ys"
    "k < length fs" "\<forall>j<k. field_exported (fs ! j)"
    "resolve_args E n (map field_type (take k fs)) st = Some (Ok vs, st1)"
    "resolve E n (field_type (fs ! k)) st1 = Some (Err e, st2)"
  shows "Bind_fields E n a i fs st =
     Some (Err e, st2\<lparr>heap := (heap st)(a := VStruct nm fs0 (take i ys @ vs @ drop (i + k) ys))\<rparr>)"
  using assms
proof (induction fs arbitrary: i k st ys vs st1 st2)
  case Nil
  then show ?case by simp
next
  case (Cons f fs)
  obtain fnm ex ty where f: "f = (fnm, ex, ty)" by (cases f)
  show ?case
  proof (cases k)
    case 0
    with Cons.prems(5) have v: "vs = []" "st1 = st" by simp_all
    from Cons.prems(6) 0 f v have r: "resolve E n ty st = Some (Err e, st2)" by simp
    have "heap st2 = heap st" using resolve_frame(1)[OF r] by (simp add: frame_def)
    then have rhs: "st2\<lparr>heap := (heap st)(a := VStruct nm fs0 (take i ys @ vs @ drop (i + k) ys))\<rparr> = st2"
      using Cons.prems(1) 0 v by (intro heap_unchanged) simp_all
    have lhs: "Bind_fields E n a i (f # fs) st = Some (Err e, st2)" using r f by simp
    show ?thesis by (simp only: lhs rhs)
  next
    case (Suc k')
    from Cons.prems(5) Suc f
    have "resolve_args E n (ty # map field_type (take k' fs)) st = Some (Ok vs, st1)" by simp
    from resolve_args_Cons_cases[OF this] obtain v sta vs' where
      a: "resolve E n ty st = Some (Ok v, sta)"
      and b: "resolve_args E n (map field_type (take k' fs)) sta = Some (Ok vs', st1)"
      and c: "vs = v # vs'" by auto
    have ex: "ex" using Cons.prems(4) Suc f by auto
    have hs: "heap sta = heap st" using resolve_frame(1)[OF a] by (simp add: frame_def)
    define hb where "hb = (heap st)(a := VStruct nm fs0 (ys[i := v]))"
    have sf: "set_field a i v sta = sta\<lparr>heap := hb\<rparr>"
      using hs Cons.prems(1) by (simp add: set_field_def hb_def)
    have b': "resolve_args E n (map field_type (take k' fs)) (sta\<lparr>heap := hb\<rparr>) =
        Some (Ok vs', st1\<lparr>heap := hb\<rparr>)"
      using b by (simp add: resolve_heap(2))
    have d: "resolve E n (field_type (fs ! k')) (st1\<lparr>heap := hb\<rparr>) = Some (Err e, st2\<lparr>heap := hb\<rparr>)"
      using Cons.prems(6) Suc by (simp add: resolve_heap(1))
    have 1: "heap (sta\<lparr>heap := hb\<rparr>) a = VStruct nm fs0 (ys[i := v])" by (simp add: hb_def)
    have 2: "Suc i + length fs = length (ys[i := v])" using Cons.prems(2) by simp
    have 3: "k' < length fs" using Cons.prems(3) Suc by simp
    have 4: "\<forall>j<k'. field_exported (fs ! j)" using Cons.prems(4) Suc by auto
    have il: "i < length ys" using Cons.prems(2) by simp
    have step: "Bind_fields E n a i (f # fs) st = Bind_fields E n a (Suc i) fs (sta\<lparr>heap := hb\<rparr>)"
      using a f ex sf by simp
    have ih: "Bind_fields E n a (Suc i) fs (sta\<lparr>heap := hb\<rparr>) =
        Some (Err e, (st2\<lparr>heap := hb\<rparr>)\<lparr>heap := (heap (sta\<lparr>heap := hb\<rparr>))(a := VStruct nm fs0
               (take (Suc i) (ys[i := v]) @ vs' @ drop (Suc i + k') (ys[i := v])))\<rparr>)"
      by (rule Cons.IH[OF 1 2 3 4 b' d])
    have "(heap (sta\<lparr>heap := hb\<rparr>))(a := VStruct nm fs0
               (take (Suc i) (ys[i := v]) @ vs' @ drop (Suc i + k') (ys[i := v]))) =
          (heap st)(a := VStruct nm fs0 (take i ys @ (v # vs') @ drop (i + Suc k') ys))"
      using splice_step[OF il, of v vs' k'] by (simp add: hb_def)
    then have st_eq: "(st2\<lparr>heap := hb\<rparr>)\<lparr>heap := (heap (sta\<lparr>heap := hb\<rparr>))(a := VStruct nm fs0
               (take (Suc i) (ys[i := v]) @ vs' @ drop (Suc i + k') (ys[i := v])))\<rparr> =
          st2\<lparr>heap := (heap st)(a := VStruct nm fs0 (take i ys @ (v # vs') @ drop (i + Suc k') ys))\<rparr>"
      by (rule heap_update_twice)
    show ?thesis unfolding c Suc by (simp only: step ih st_eq)
  qed
qed

lemma Bind_fields_all:
  assumes "heap st a = VStruct nm fs0 ys" "i + length fs = length ys"
    "\<forall>j<length fs. field_exported (fs ! j)"
    "resolve_args E n (map field_type fs) st = Some (Ok vs, st1)"
  shows "Bind_fields E n a i fs st =
     Some (Ok (), st1\<lparr>heap := (heap st)(a := VStruct nm fs0 (take i ys @ vs))\<rparr>)"
  using assms
proof (induction fs arbitrary: i st ys vs st1)
  case Nil
  then have v: "vs = []" "st1 = st" "take i ys = ys" by simp_all
  have rhs: "st1\<lparr>heap := (heap st)(a := VStruct nm fs0 (take i ys @ vs))\<rparr> = st1"
    using Nil.prems(1) v by (intro heap_unchanged) simp_all
  have lhs: "Bind_fields E n a i [] st = Some (Ok (), st1)" using v by simp
  show ?case by (simp only: lhs rhs)
next
  case (Cons f fs)
  obtain fnm ex ty where f: "f = (fnm, ex, ty)" by (cases f)
  from Cons.prems(4) f
  have "resolve_args E n (ty # map field_type fs) st = Some (Ok vs, st1)" by simp
  from resolve_args_Cons_cases[OF this] obtain v sta vs' where
    a: "resolve E n ty st = Some (Ok v, sta)"
    and b: "resolve_args E n (map field_type fs) sta = Some (Ok vs', st1)"
    and c: "vs = v # vs'" by auto
  have ex: "ex" using Cons.prems(3) f by auto
  have hs: "heap sta = heap st" using resolve_frame(1)[OF a] by (simp add: frame_def)
  define hb where "hb = (heap st)(a := VStruct nm fs0 (ys[i := v]))"
  have sf: "set_field a i v sta = sta\<lparr>heap := hb\<rparr>"
    using hs Cons.prems(1) by (simp add: set_field_def hb_def)
  have b': "resolve_args E n (map field_type fs) (sta\<lparr>heap := hb\<rparr>) = Some (Ok vs', st1\<lparr>heap := hb\<rparr>)"
    using b by (simp add: resolve_heap(2))
  have 1: "heap (sta\<lparr>heap := hb\<rparr>) a = VStruct nm fs0 (ys[i := v])" by (simp add: hb_def)
  have 2: "Suc i + length fs = length (ys[i := v])" using Cons.prems(2) by simp
  have 3: "\<forall>j<length fs. field_exported (fs ! j)" using Cons.prems(3) by auto
  have il: "i < length ys" using Cons.prems(2) by simp
  have step: "Bind_fields E n a i (f # fs) st = Bind_fields E n a (Suc i) fs (sta\<lparr>heap := hb\<rparr>)"
    using a f ex sf by simp
  have ih: "Bind_fields E n a (Suc i) fs (sta\<lparr>heap := hb\<rparr>) =
      Some (Ok (), (st1\<lparr>heap := hb\<rparr>)\<lparr>heap := (heap (sta\<lparr>heap := hb\<rparr>))(a := VStruct nm fs0
             (take (Suc i) (ys[i := v]) @ vs'))\<rparr>)"
    by (rule Cons.IH[OF 1 2 3 b'])
  have "(heap (sta\<lparr>heap := hb\<rparr>))(a := VStruct nm fs0 (take (Suc i) (ys[i := v]) @ vs')) =
        (heap st)(a := VStruct nm fs0 (take i ys @ v # vs'))"
    using il by (simp add: hb_def take_Suc_conv_app_nth)
  then have st_eq: "(st1\<lparr>heap := hb\<rparr>)\<lparr>heap := (heap (sta\<lparr>heap := hb\<rparr>))(a := VStruct nm fs0
             (take (Suc i) (ys[i := v]) @ vs'))\<rparr> =
        st1\<lparr>heap := (heap st)(a := VStruct nm fs0 (take i ys @ v # vs'))\<rparr>"
    by (rule heap_update_twice)
  show ?case unfolding c by (simp only: step ih st_eq)
qed

lemma Bind_no_usage_error:
  assumes "\<forall>t a nm fs xs. \<not> (ValueOf out = VPtr t a \<and> heap st a = VStruct nm fs xs)"
  shows "\<exists>pc. Bind E n out st = Some (Panic pc, st)"
proof (cases "ValueOf out")
  case (VPtr t a)
  with assms have "\<forall>nm fs xs. heap st a \<noteq> VStruct nm fs xs" by simp
  with VPtr show ?thesis by (cases "heap st a") (simp_all add: Bind_def)
qed (simp_all add: Bind_def)

section \<open>Evaluation of the test scenario\<close>

lemmas test_defs = testContainer_def emptyContainer_def testHeap_def New_def Add_def
  AddSingleton_def AddWithScope_def spec_def newConfig_def newDBService_def theConfig_def
  zeroConfig_def testEnv_def construct_def Call_def params_def asError_def numeral_2_eq_2

lemma keyed_testContainer: "keyed testContainer"
  by (simp add: keyed_def test_defs)

section \<open>Singleton providers\<close>




section \<open>The cache after a failed resolution\<close>

text \<open>
  C2, as the code has it. When \<open>resolve\<close> returns an error, the requested type had no
  cached instance and has none afterwards, every instance cached before is still
  cached with the same value, and every type that the call added to the cache has a
  provider of Singleton scope: these are the dependencies that were resolved before
  the failure.
\<close>

theorem resolve_error_cache:
  assumes r: "resolve E n t st = Some (Err e, st')"
  shows "instances st t = None \<and> instances st' t = None \<and> instances st \<subseteq>\<^sub>m instances st' \<and>
         (\<forall>u. instances st u = None \<longrightarrow> instances st' u \<noteq> None \<longrightarrow>
            (\<exists>q. providers st u = Some q \<and> Scope q = ScopeSingleton))"
proof -
  obtain n' where n: "n = Suc n'" using r by (cases n) simp_all
  have g: "grows st st'" using resolve_grows(1)[OF r] .
  have "instances st t = None \<and> instances st' t = None"
    using resolve_Suc_cases[OF r[unfolded n]]
  proof (elim disjE exE conjE)
    fix p ts ra
    assume a: "instances st t = None" "providers st t = Some p" "params (Value p) = Inr ts"
      and b: "resolve_args E n' ts st = Some (ra, st')"
    from resolve_args_own_uncached[OF a b] a(1) show ?thesis by simp
  next
    fix p ts args st1
    assume a: "instances st t = None" "providers st t = Some p" "params (Value p) = Inr ts"
      and b: "resolve_args E n' ts st = Some (Ok args, st1)" and c: "construct E t p args st1 = (Err e, st')"
    from resolve_args_own_uncached[OF a b] construct_fail[OF c] a(1) show ?thesis by simp
  qed simp_all
  with g show ?thesis by (simp add: grows_def)
qed

theorem resolve_error_cache_witness:
  "resolve testEnv 2 DBServiceT auditContainer =
     Some (Err (ErrNew ''no provider for type cosmo.Logger''),
           auditContainer\<lparr>instances := [ConfigT \<mapsto> theConfig], calls := [(newConfig, [])]\<rparr>) \<and>
   instances auditContainer DBServiceT = None \<and>
   instances (auditContainer\<lparr>instances := [ConfigT \<mapsto> theConfig], calls := [(newConfig, [])]\<rparr>) DBServiceT = None \<and>
   instances auditContainer \<subseteq>\<^sub>m
     instances (auditContainer\<lparr>instances := [ConfigT \<mapsto> theConfig], calls := [(newConfig, [])]\<rparr>) \<and>
   instances auditContainer ConfigT = None \<and>
   (\<exists>q. providers auditContainer ConfigT = Some q \<and> Scope q = ScopeSingleton)"
proof -
  let ?st1 = "auditContainer\<lparr>instances := [ConfigT \<mapsto> theConfig], calls := [(newConfig, [])]\<rparr>"
  have r: "resolve testEnv 2 DBServiceT auditContainer =
     Some (Err (ErrNew ''no provider for type cosmo.Logger''), ?st1)"
    by (simp add: test_defs auditContainer_def newAuditedDB_def)
  have i: "instances auditContainer ConfigT = None"
    by (simp add: test_defs auditContainer_def newAuditedDB_def)
  have j: "instances ?st1 ConfigT \<noteq> None" by simp
  note w = resolve_error_cache[OF r]
  from w[THEN conjunct2, THEN conjunct2, THEN conjunct2, rule_format, OF i j]
  have "\<exists>q. providers auditContainer ConfigT = Some q \<and> Scope q = ScopeSingleton" .
  with w r i show ?thesis by simp
qed

text \<open>
  C2 as stated fails: \<open>newAuditedDB\<close> needs a \<^verbatim>\<open>Config\<close> and a \<^verbatim>\<open>Logger\<close>. The singleton
  \<^verbatim>\<open>Config\<close> is built and cached, then \<^verbatim>\<open>Logger\<close> has no provider, and the failing call
  leaves the \<^verbatim>\<open>Config\<close> in the cache.
\<close>

theorem failing_resolve_caches_dependency_counterexample:
  "resolve testEnv 2 DBServiceT auditContainer =
     Some (Err (ErrNew ''no provider for type cosmo.Logger''),
           auditContainer\<lparr>instances := [ConfigT \<mapsto> theConfig], calls := [(newConfig, [])]\<rparr>) \<and>
   instances auditContainer ConfigT = None \<and>
   instances (auditContainer\<lparr>instances := [ConfigT \<mapsto> theConfig], calls := [(newConfig, [])]\<rparr>) ConfigT =
     Some theConfig"
  by (simp add: test_defs auditContainer_def newAuditedDB_def)

section \<open>Transient providers\<close>

text \<open>
  C3, as the code has it. For a provider registered with Transient scope whose type has
  no cached instance, a \<open>resolve\<close> of the type never caches the type, whatever it
  returns, and leaves the provider registered; when it returns a value it has run the
  constructor exactly once. The next \<open>resolve\<close> of the type therefore starts from the
  same situation and runs the constructor again.
\<close>

theorem transient_not_cached:
  assumes k: "keyed st" and p: "providers st t = Some p" and s: "Scope p = ScopeTransient"
    and i: "instances st t = None" and r: "resolve E n t st = Some (r, st')"
  shows "instances st' t = None \<and> providers st' t = Some p \<and> keyed st' \<and>
         (\<forall>v. r = Ok v \<longrightarrow> ncalls (Value p) st' = Suc (ncalls (Value p) st))"
proof -
  obtain n' where n: "n = Suc n'" using r by (cases n) simp_all
  have f: "frame st st'" using resolve_frame(1)[OF r] .
  then have pk: "providers st' t = Some p \<and> keyed st'" using p k by (simp add: frame_def keyed_def)
  have "instances st' t = None \<and> (\<forall>v. r = Ok v \<longrightarrow> ncalls (Value p) st' = Suc (ncalls (Value p) st))"
    using resolve_Suc_cases[OF r[unfolded n]]
  proof (elim disjE exE conjE)
    fix v assume "instances st t = Some v"
    with i show ?thesis by simp
  next
    fix q ts ra
    assume a: "instances st t = None" "providers st t = Some q" "params (Value q) = Inr ts"
      and b: "resolve_args E n' ts st = Some (ra, st')" and c: "\<forall>v. r \<noteq> Ok v"
    from resolve_args_own_uncached[OF a b] c show ?thesis by simp
  next
    fix q ts args st1
    assume a: "instances st t = None" "providers st t = Some q" "params (Value q) = Inr ts"
      and b: "resolve_args E n' ts st = Some (Ok args, st1)" and c: "construct E t q args st1 = (r, st')"
    have q: "q = p" using a(2) p by simp
    have u: "instances st1 t = None" using resolve_args_own_uncached[OF a b] .
    have nc: "ncalls (Value p) st1 = ncalls (Value p) st"
      using resolve_args_own_ncalls[OF k a b] q by simp
    show ?thesis
    proof (cases "\<exists>v. r = Ok v")
      case True
      then obtain v where "r = Ok v" by blast
      with construct_Ok[of E t q args st1 v st'] c q s u nc show ?thesis by simp
    next
      case False
      with construct_fail[OF c] u show ?thesis by simp
    qed
  qed (simp_all add: i)
  with pk show ?thesis by simp
qed

theorem transient_not_cached_witness:
  "keyed testContainer \<and>
   providers testContainer DBServiceT =
     Some \<lparr>Type = DBServiceT, Value = newDBService, Scope = ScopeTransient\<rparr> \<and>
   instances testContainer DBServiceT = None \<and>
   resolve testEnv 2 DBServiceT testContainer =
     Some (Ok (VIface ''cosmo.DBService'' (VPtr SQLDBServiceT 0)),
           testContainer\<lparr>instances := [ConfigT \<mapsto> theConfig], world := 1,
             calls := [(newConfig, []), (newDBService, [theConfig])]\<rparr>) \<and>
   instances (testContainer\<lparr>instances := [ConfigT \<mapsto> theConfig], world := 1,
             calls := [(newConfig, []), (newDBService, [theConfig])]\<rparr>) DBServiceT = None \<and>
   ncalls newDBService (testContainer\<lparr>instances := [ConfigT \<mapsto> theConfig], world := 1,
             calls := [(newConfig, []), (newDBService, [theConfig])]\<rparr>) = 1"
proof -
  let ?p = "\<lparr>Type = DBServiceT, Value = newDBService, Scope = ScopeTransient\<rparr>"
  let ?st1 = "testContainer\<lparr>instances := [ConfigT \<mapsto> theConfig], world := 1,
             calls := [(newConfig, []), (newDBService, [theConfig])]\<rparr>"
  have k: "keyed testContainer" by (rule keyed_testContainer)
  have p: "providers testContainer DBServiceT = Some ?p" by (simp add: test_defs)
  have s: "Scope ?p = ScopeTransient" by simp
  have i: "instances testContainer DBServiceT = None" by (simp add: test_defs)
  have r: "resolve testEnv 2 DBServiceT testContainer =
     Some (Ok (VIface ''cosmo.DBService'' (VPtr SQLDBServiceT 0)), ?st1)"
    by (simp add: test_defs)
  have z: "ncalls newDBService testContainer = 0" by (simp add: ncalls_def test_defs)
  from transient_not_cached[OF k p s i r] z show ?thesis using k p i r by simp
qed

text \<open>
  C3 as stated fails in the test's own scenario: resolving the transient \<^verbatim>\<open>DBService\<close>
  writes its singleton dependency \<^verbatim>\<open>Config\<close> into the instance cache. And a call that
  fails on a dependency, as the one for \<open>newAuditedDB\<close>, has not run the constructor.
\<close>

theorem transient_resolve_writes_cache_counterexample:
  "providers testContainer DBServiceT =
     Some \<lparr>Type = DBServiceT, Value = newDBService, Scope = ScopeTransient\<rparr> \<and>
   instances testContainer DBServiceT = None \<and>
   instances testContainer ConfigT = None \<and>
   resolve testEnv 2 DBServiceT testContainer =
     Some (Ok (VIface ''cosmo.DBService'' (VPtr SQLDBServiceT 0)),
           testContainer\<lparr>instances := [ConfigT \<mapsto> theConfig], world := 1,
             calls := [(newConfig, []), (newDBService, [theConfig])]\<rparr>) \<and>
   instances (testContainer\<lparr>instances := [ConfigT \<mapsto> theConfig], world := 1,
             calls := [(newConfig, []), (newDBService, [theConfig])]\<rparr>) ConfigT = Some theConfig \<and>
   providers auditContainer DBServiceT =
     Some \<lparr>Type = DBServiceT, Value = newAuditedDB, Scope = ScopeTransient\<rparr> \<and>
   instances auditContainer DBServiceT = None \<and>
   resolve testEnv 2 DBServiceT auditContainer =
     Some (Err (ErrNew ''no provider for type cosmo.Logger''),
           auditContainer\<lparr>instances := [ConfigT \<mapsto> theConfig], calls := [(newConfig, [])]\<rparr>) \<and>
   ncalls newAuditedDB
     (auditContainer\<lparr>instances := [ConfigT \<mapsto> theConfig], calls := [(newConfig, [])]\<rparr>) = 0"
  by (simp add: test_defs auditContainer_def newAuditedDB_def ncalls_def)

section \<open>Bind on something that is no pointer to a struct\<close>

text \<open>
  C4. \<open>Bind\<close> does not check its argument as \<open>Invoke\<close> does: given a struct value
  instead of a pointer to it, \<^verbatim>\<open>reflect.ValueOf(out).Elem()\<close> panics and no error is
  returned. Nothing is assigned: the state is unchanged.
\<close>

theorem Bind_struct_value_panics:
  "Bind E n theConfig st = Some (Panic PanicElem, st)"
  by (simp add: Bind_def theConfig_def)

section \<open>Registering a type twice\<close>



section \<open>The instance cache only grows\<close>



section \<open>Resolution of a type that nothing provides\<close>

text \<open>
  C7. A type with neither a cached instance nor a registered provider: \<open>resolve\<close> returns
  the error "no provider for type" followed by the name of the type, and the whole state,
  the instance cache included, is what it was.
\<close>

theorem resolve_no_provider:
  "instances st t = None \<Longrightarrow> providers st t = None \<Longrightarrow>
   resolve E (Suc n) t st = Some (Err (ErrNew (''no provider for type '' @ typeString t)), st)"
  by simp

theorem resolve_no_provider_witness:
  "instances testContainer LoggerT = None \<and> providers testContainer LoggerT = None \<and>
   resolve testEnv (Suc 0) LoggerT testContainer =
     Some (Err (ErrNew ''no provider for type cosmo.Logger''), testContainer)"
proof -
  have i: "instances testContainer LoggerT = None" by (simp add: test_defs)
  have p: "providers testContainer LoggerT = None" by (simp add: test_defs)
  show ?thesis using i p resolve_no_provider[OF i p, of testEnv 0] by simp
qed

section \<open>A constructor that returns an error\<close>




section \<open>Invoke\<close>



section \<open>Bind\<close>

text \<open>
  C10. \<open>Bind\<close> on a pointer to a struct whose first \<open>k\<close> fields are exported and resolve
  to the values \<open>vs\<close>, one after the other in declaration order: when field \<open>k\<close> fails to
  resolve with an error, \<open>Bind\<close> returns that error and the struct holds \<open>vs\<close> in its
  first \<open>k\<close> fields and its old values from field \<open>k\<close> on; when \<open>k\<close> is the number of
  fields, \<open>Bind\<close> returns no error and the struct holds \<open>vs\<close>.
\<close>

theorem Bind_assigns_in_order:
  assumes out: "ValueOf out = VPtr ty a" and h: "heap st a = VStruct nm fs xs"
    and len: "length xs = length fs" and k: "k \<le> length fs"
    and ex: "\<forall>j<k. field_exported (fs ! j)"
    and args: "resolve_args E n (map field_type (take k fs)) st = Some (Ok vs, st1)"
  shows "(k < length fs \<longrightarrow> resolve E n (field_type (fs ! k)) st1 = Some (Err e, st2) \<longrightarrow>
            Bind E n out st =
              Some (Err e, st2\<lparr>heap := (heap st)(a := VStruct nm fs (vs @ drop k xs))\<rparr>)) \<and>
         (k = length fs \<longrightarrow>
            Bind E n out st = Some (Ok (), st1\<lparr>heap := (heap st)(a := VStruct nm fs vs)\<rparr>)) \<and>
         length vs = k"
proof (intro conjI impI)
  assume "k < length fs" "resolve E n (field_type (fs ! k)) st1 = Some (Err e, st2)"
  with Bind_fields_stops[of st a nm fs xs 0 fs k E n vs st1 e st2] h len ex args out
  show "Bind E n out st = Some (Err e, st2\<lparr>heap := (heap st)(a := VStruct nm fs (vs @ drop k xs))\<rparr>)"
    by (simp add: Bind_def)
next
  assume "k = length fs"
  with Bind_fields_all[of st a nm fs xs 0 fs E n vs st1] h len ex args out
  show "Bind E n out st = Some (Ok (), st1\<lparr>heap := (heap st)(a := VStruct nm fs vs)\<rparr>)"
    by (simp add: Bind_def)
next
  show "length vs = k" using resolve_args_length[OF args] k by simp
qed

theorem Bind_assigns_in_order_witness:
  "heap testContainer 9 =
     VStruct ''cosmo.Handlers'' [(''Cfg'', True, ConfigT), (''Log'', True, LoggerT)]
       [zeroConfig, VNilIface ''cosmo.Logger''] \<and>
   resolve_args testEnv 1 [ConfigT] testContainer =
     Some (Ok [theConfig],
           testContainer\<lparr>instances := [ConfigT \<mapsto> theConfig], calls := [(newConfig, [])]\<rparr>) \<and>
   resolve testEnv 1 LoggerT
     (testContainer\<lparr>instances := [ConfigT \<mapsto> theConfig], calls := [(newConfig, [])]\<rparr>) =
     Some (Err (ErrNew ''no provider for type cosmo.Logger''),
           testContainer\<lparr>instances := [ConfigT \<mapsto> theConfig], calls := [(newConfig, [])]\<rparr>) \<and>
   Bind testEnv 1
     (VPtr (TStruct ''cosmo.Handlers'' [(''Cfg'', True, ConfigT), (''Log'', True, LoggerT)]) 9)
     testContainer =
     Some (Err (ErrNew ''no provider for type cosmo.Logger''),
           testContainer\<lparr>instances := [ConfigT \<mapsto> theConfig], calls := [(newConfig, [])],
             heap := (heap testContainer)
               (9 := VStruct ''cosmo.Handlers'' [(''Cfg'', True, ConfigT), (''Log'', True, LoggerT)]
                       [theConfig, VNilIface ''cosmo.Logger''])\<rparr>) \<and>
   heap testContainer 8 =
     VStruct ''cosmo.ToBind'' [(''DB'', True, DBServiceT)] [VNilIface ''cosmo.DBService''] \<and>
   resolve_args testEnv 2 [DBServiceT] testContainer =
     Some (Ok [VIface ''cosmo.DBService'' (VPtr SQLDBServiceT 0)],
           testContainer\<lparr>instances := [ConfigT \<mapsto> theConfig], world := 1,
             calls := [(newConfig, []), (newDBService, [theConfig])]\<rparr>) \<and>
   Bind testEnv 2 (VPtr ToBindT 8) testContainer =
     Some (Ok (), testContainer\<lparr>instances := [ConfigT \<mapsto> theConfig], world := 1,
             calls := [(newConfig, []), (newDBService, [theConfig])],
             heap := (heap testContainer)
               (8 := VStruct ''cosmo.ToBind'' [(''DB'', True, DBServiceT)]
                       [VIface ''cosmo.DBService'' (VPtr SQLDBServiceT 0)])\<rparr>)"
proof -
  let ?fs = "[(''Cfg'', True, ConfigT), (''Log'', True, LoggerT)]"
  let ?out = "VPtr (TStruct ''cosmo.Handlers'' ?fs) 9"
  let ?xs = "[zeroConfig, VNilIface ''cosmo.Logger'']"
  let ?st1 = "testContainer\<lparr>instances := [ConfigT \<mapsto> theConfig], calls := [(newConfig, [])]\<rparr>"
  have out: "ValueOf ?out = ?out" by simp
  have h: "heap testContainer 9 = VStruct ''cosmo.Handlers'' ?fs ?xs" by (simp add: test_defs)
  have len: "length ?xs = length ?fs" by simp
  have k: "Suc 0 \<le> length ?fs" by simp
  have ex: "\<forall>j<Suc 0. field_exported (?fs ! j)" by simp
  have args: "resolve_args testEnv 1 (map field_type (take (Suc 0) ?fs)) testContainer =
      Some (Ok [theConfig], ?st1)"
    by (simp add: test_defs)
  have r: "resolve testEnv 1 (field_type (?fs ! Suc 0)) ?st1 =
      Some (Err (ErrNew ''no provider for type cosmo.Logger''), ?st1)"
    by (simp add: test_defs)
  from Bind_assigns_in_order[OF out h len k ex args, of "ErrNew ''no provider for type cosmo.Logger''" ?st1] r
  have 1: "Bind testEnv 1 ?out testContainer =
     Some (Err (ErrNew ''no provider for type cosmo.Logger''),
           ?st1\<lparr>heap := (heap testContainer)(9 := VStruct ''cosmo.Handlers'' ?fs
                   ([theConfig] @ drop (Suc 0) ?xs))\<rparr>)"
    by simp
  let ?gs = "[(''DB'', True, DBServiceT)]"
  let ?db = "VIface ''cosmo.DBService'' (VPtr SQLDBServiceT 0)"
  let ?st3 = "testContainer\<lparr>instances := [ConfigT \<mapsto> theConfig], world := 1,
             calls := [(newConfig, []), (newDBService, [theConfig])]\<rparr>"
  have out': "ValueOf (VPtr ToBindT 8) = VPtr ToBindT 8" by simp
  have h': "heap testContainer 8 = VStruct ''cosmo.ToBind'' ?gs [VNilIface ''cosmo.DBService'']"
    by (simp add: test_defs)
  have len': "length [VNilIface ''cosmo.DBService''] = length ?gs" by simp
  have k': "Suc 0 \<le> length ?gs" by simp
  have ex': "\<forall>j<Suc 0. field_exported (?gs ! j)" by simp
  have args': "resolve_args testEnv 2 (map field_type (take (Suc 0) ?gs)) testContainer =
      Some (Ok [?db], ?st3)"
    by (simp add: test_defs)
  from Bind_assigns_in_order[OF out' h' len' k' ex' args']
  have 2: "Bind testEnv 2 (VPtr ToBindT 8) testContainer =
     Some (Ok (), ?st3\<lparr>heap := (heap testContainer)(8 := VStruct ''cosmo.ToBind'' ?gs [?db])\<rparr>)"
    by simp
  have args1: "resolve_args testEnv 1 [ConfigT] testContainer = Some (Ok [theConfig], ?st1)"
    using args by simp
  have r1: "resolve testEnv 1 LoggerT ?st1 =
      Some (Err (ErrNew ''no provider for type cosmo.Logger''), ?st1)"
    using r by simp
  have args2: "resolve_args testEnv 2 [DBServiceT] testContainer = Some (Ok [?db], ?st3)"
    using args' by simp
  show ?thesis using h args1 r1 1 h' args2 2 by simp
qed

end
